theory Spec2Isabelle
  imports Main "HOL-Library.DAList"
begin

section \<open>Strings\<close>

text \<open>
  A Python \<^verbatim>\<open>str\<close> is a sequence of Unicode code points, and \<^verbatim>\<open>len\<close> counts code
  points. A string is therefore modelled as a list of code points (natural numbers);
  \<open>py\<close> turns an ASCII literal into that representation.
\<close>

type_synonym pystr = "nat list"

definition py :: "string \<Rightarrow> pystr" where
  "py s = map of_char s"

text \<open>
  The characters \<^verbatim>\<open>str.strip()\<close> removes: the code points for which CPython's
  \<^verbatim>\<open>Py_UNICODE_ISSPACE\<close> holds (tab to carriage return, the separators 0x1C to 0x1F,
  space, NEL, no-break space and the Unicode space separators).
\<close>

definition is_space :: "nat \<Rightarrow> bool" where
  "is_space c \<longleftrightarrow>
     (9 \<le> c \<and> c \<le> 13) \<or> (28 \<le> c \<and> c \<le> 32) \<or> c = 133 \<or> c = 160 \<or> c = 5760 \<or>
     (8192 \<le> c \<and> c \<le> 8202) \<or> c = 8232 \<or> c = 8233 \<or> c = 8239 \<or> c = 8287 \<or> c = 12288"

text \<open>\<^verbatim>\<open>s.strip()\<close>: leading and trailing whitespace removed.\<close>

definition strip :: "pystr \<Rightarrow> pystr" where
  "strip s = rev (dropWhile is_space (rev (dropWhile is_space s)))"

text \<open>
  Python's treatment of a slice bound on a sequence of length \<open>n\<close>: a negative bound
  counts from the end, and the result is clamped to \<open>0..n\<close>.
\<close>

definition adjust_index :: "int \<Rightarrow> nat \<Rightarrow> nat" where
  "adjust_index i n = (if i < 0 then nat (i + int n) else min (nat i) n)"

text \<open>\<^verbatim>\<open>xs[i:j]\<close>.\<close>

definition slice :: "'a list \<Rightarrow> int \<Rightarrow> int \<Rightarrow> 'a list" where
  "slice xs i j =
     (let a = adjust_index i (length xs); b = adjust_index j (length xs)
      in take (b - a) (drop a xs))"

text \<open>
  \<^verbatim>\<open>s.rfind(sub, start, end)\<close>: the highest index \<open>i\<close> with \<open>start \<le> i\<close> and
  \<open>i + len(sub) \<le> end\<close> at which \<open>sub\<close> occurs in \<open>s\<close>, and \<open>-1\<close> when there is none.
  The bounds are adjusted as CPython does: \<open>end\<close> is clamped to the length, negative
  bounds count from the end.
\<close>

definition rfind :: "'a list \<Rightarrow> 'a list \<Rightarrow> int \<Rightarrow> int \<Rightarrow> int" where
  "rfind s sub start end =
     (let n = int (length s); m = int (length sub);
          e = (if end > n then n else if end < 0 then max 0 (end + n) else end);
          b = (if start < 0 then max 0 (start + n) else start)
      in if e - b < m then - 1
         else (case filter (\<lambda>i. take (length sub) (drop i s) = sub)
                      (rev [nat b ..< Suc (nat (e - m))]) of
                 [] \<Rightarrow> - 1
               | i # _ \<Rightarrow> int i))"

section \<open>The chunker (backend/app/services/chunker.py)\<close>

text \<open>
  The sentence separators, in the order the source tries them:
  \<^verbatim>\<open>[". ", ".\n", "! ", "!\n", "? ", "?\n"]\<close>.
\<close>

definition separators :: "pystr list" where
  "separators = [[46, 32], [46, 10], [33, 32], [33, 10], [63, 32], [63, 10]]"

text \<open>
  The \<^verbatim>\<open>for sep in [...]: ... break / else: ...\<close> of \<^verbatim>\<open>chunk_text\<close>: the first
  separator found in the second half of the window gives the cut; when the loop ends
  without a \<^verbatim>\<open>break\<close>, the \<^verbatim>\<open>else\<close> branch looks for the last space.
\<close>

fun sentence_break :: "pystr \<Rightarrow> int \<Rightarrow> int \<Rightarrow> int \<Rightarrow> pystr list \<Rightarrow> int" where
  "sentence_break text chunk_size start end [] =
     (let space = rfind text [32] (start + chunk_size div 2) end
      in if space > start then space + 1 else end)"
| "sentence_break text chunk_size start end (sep # seps) =
     (let sent_break = rfind text sep (start + chunk_size div 2) end
      in if sent_break > start then sent_break + int (length sep)
         else sentence_break text chunk_size start end seps)"

text \<open>
  The value of \<^verbatim>\<open>end\<close> after the boundary search of one iteration (lines 48 to 67 of
  the backend chunker, lines 47 to 66 of the older copy under app/, which are the same).
\<close>

definition find_end :: "pystr \<Rightarrow> int \<Rightarrow> int \<Rightarrow> int" where
  "find_end text chunk_size start =
     (let end = start + chunk_size
      in if end < int (length text) then
           (let para_break = rfind text [10, 10] start end
            in if para_break > start + chunk_size div 2 then para_break + 2
               else sentence_break text chunk_size start end separators)
         else end)"

text \<open>\<^verbatim>\<open>chunk = text[start:end].strip()\<close>.\<close>

definition chunk_at :: "pystr \<Rightarrow> int \<Rightarrow> int \<Rightarrow> pystr" where
  "chunk_at text chunk_size start = strip (slice text start (find_end text chunk_size start))"

text \<open>
  The new value of \<^verbatim>\<open>start\<close>: \<^verbatim>\<open>end - chunk_overlap\<close>, or \<^verbatim>\<open>end\<close> when that would
  not advance.
\<close>

definition next_start :: "pystr \<Rightarrow> int \<Rightarrow> int \<Rightarrow> int \<Rightarrow> int" where
  "next_start text chunk_size chunk_overlap start =
     (let end = find_end text chunk_size start; new_start = end - chunk_overlap
      in if new_start \<le> start then end else new_start)"

text \<open>
  The \<^verbatim>\<open>while start < len(text)\<close> loop. Python integers are unbounded, so the sizes and
  positions are \<open>int\<close>. For some arguments (\<open>chunk_size = 0\<close>) the loop never ends, so
  it is a partial function: \<open>None\<close> is "does not return". The last component counts
  the iterations executed; it is not part of the program's state.
\<close>

partial_function (option) chunk_loop ::
  "pystr \<Rightarrow> int \<Rightarrow> int \<Rightarrow> int \<Rightarrow> pystr list \<Rightarrow> nat \<Rightarrow> (pystr list \<times> nat) option" where
  "chunk_loop text chunk_size chunk_overlap start chunks iters =
     (if start < int (length text) then
        chunk_loop text chunk_size chunk_overlap
          (next_start text chunk_size chunk_overlap start)
          (if chunk_at text chunk_size start \<noteq> [] then chunks @ [chunk_at text chunk_size start]
           else chunks)
          (Suc iters)
      else Some (chunks, iters))"

text \<open>
  \<^verbatim>\<open>chunk_text(text, chunk_size, chunk_overlap)\<close> with the number of loop iterations:
  the two early returns execute the loop zero times.
\<close>

definition chunk_run :: "pystr \<Rightarrow> int \<Rightarrow> int \<Rightarrow> (pystr list \<times> nat) option" where
  "chunk_run text chunk_size chunk_overlap =
     (if text = [] \<or> strip text = [] then Some ([], 0)
      else let text' = strip text
           in if int (length text') \<le> chunk_size then Some ([text'], 0)
              else chunk_loop text' chunk_size chunk_overlap 0 [] 0)"

definition chunk_text :: "pystr \<Rightarrow> int \<Rightarrow> int \<Rightarrow> pystr list option" where
  "chunk_text text chunk_size chunk_overlap =
     map_option fst (chunk_run text chunk_size chunk_overlap)"

definition chunk_iterations :: "pystr \<Rightarrow> int \<Rightarrow> int \<Rightarrow> nat option" where
  "chunk_iterations text chunk_size chunk_overlap =
     map_option snd (chunk_run text chunk_size chunk_overlap)"

section \<open>The older chunker (app/services/chunker.py)\<close>

datatype py_error = TypeError | IndexError | KeyError | OSError | ValueError

text \<open>
  The loop of the older copy differs in its last lines:
  \<^verbatim>\<open>start = end - chunk_overlap\<close> followed by
  \<^verbatim>\<open>if start <= chunks[-1] if chunks else 0: start = end\<close>.
  Python reads the condition as \<^verbatim>\<open>(start <= chunks[-1]) if chunks else 0\<close>: with a
  non-empty \<^verbatim>\<open>chunks\<close> it compares an \<^verbatim>\<open>int\<close> with a \<^verbatim>\<open>str\<close>, which raises
  \<^verbatim>\<open>TypeError\<close>; with an empty one the condition is \<open>0\<close> and \<^verbatim>\<open>start\<close> keeps the
  value \<^verbatim>\<open>end - chunk_overlap\<close>.
\<close>

partial_function (option) chunk_loop_app ::
  "pystr \<Rightarrow> int \<Rightarrow> int \<Rightarrow> int \<Rightarrow> pystr list \<Rightarrow> (py_error + pystr list) option" where
  "chunk_loop_app text chunk_size chunk_overlap start chunks =
     (if start < int (length text) then
        (if (if chunk_at text chunk_size start \<noteq> [] then chunks @ [chunk_at text chunk_size start]
             else chunks) \<noteq> []
         then Some (Inl TypeError)
         else chunk_loop_app text chunk_size chunk_overlap
                (find_end text chunk_size start - chunk_overlap)
                (if chunk_at text chunk_size start \<noteq> [] then chunks @ [chunk_at text chunk_size start]
                 else chunks))
      else Some (Inr chunks))"

definition chunk_text_app :: "pystr \<Rightarrow> int \<Rightarrow> int \<Rightarrow> (py_error + pystr list) option" where
  "chunk_text_app text chunk_size chunk_overlap =
     (if text = [] \<or> strip text = [] then Some (Inr [])
      else let text' = strip text
           in if int (length text') \<le> chunk_size then Some (Inr [text'])
              else chunk_loop_app text' chunk_size chunk_overlap 0 [])"

section \<open>Notions used to state the chunker's properties\<close>

text \<open>The ceiling of \<open>a / b\<close> for a positive \<open>b\<close>.\<close>

definition ceil_div :: "int \<Rightarrow> int \<Rightarrow> int" where
  "ceil_div a b = - ((- a) div b)"

text \<open>
  The bound the specification gives for the number of loop iterations:
  \<^verbatim>\<open>ceil(len(t) / (max_size - overlap)) + 1\<close>.
\<close>

definition spec_iteration_bound :: "pystr \<Rightarrow> int \<Rightarrow> int \<Rightarrow> int" where
  "spec_iteration_bound t max_size overlap = ceil_div (int (length t)) (max_size - overlap) + 1"

text \<open>
  The least distance by which one iteration moves \<^verbatim>\<open>start\<close> forward: the boundary
  search keeps more than half a window, of which at most \<open>overlap\<close> is given back.
\<close>

definition min_advance :: "int \<Rightarrow> int \<Rightarrow> int" where
  "min_advance max_size overlap = max 1 (max_size div 2 + 1 - overlap)"

text \<open>
  \<open>covers text ch j\<close>: the chunk \<open>ch\<close> is a contiguous piece of \<open>text\<close> that includes
  position \<open>j\<close> of \<open>text\<close>.
\<close>

definition covers :: "pystr \<Rightarrow> pystr \<Rightarrow> nat \<Rightarrow> bool" where
  "covers text ch j \<longleftrightarrow>
     (\<exists>a\<in>set [0 ..< Suc j]. j < a + length ch \<and> take (length ch) (drop a text) = ch)"

section \<open>The vector store (backend/app/services/vector_store.py)\<close>

subsection \<open>Values and dictionaries\<close>

text \<open>
  The values a metadata dictionary holds in this program: strings, integers, \<^verbatim>\<open>None\<close>
  and lists of such values. On these, Python's \<^verbatim>\<open>==\<close> is structural equality.
\<close>

datatype pyval = PNone | PStr pystr | PInt int | PList "pyval list"

text \<open>
  A Python \<^verbatim>\<open>dict\<close> keeps its keys distinct and iterates in insertion order: it is an
  association list with distinct keys. \<^verbatim>\<open>d[k] = v\<close> is \<open>DAList.update\<close> (an existing
  key keeps its place, a new one goes last), \<^verbatim>\<open>d.items()\<close> is \<open>DAList.impl_of\<close>.
\<close>

type_synonym 'v pydict = "(pystr, 'v) alist"

type_synonym metadata = "pyval pydict"

definition keys :: "'v pydict \<Rightarrow> pystr set" where
  "keys d = dom (DAList.lookup d)"

text \<open>\<^verbatim>\<open>d.get(k, default)\<close>.\<close>

definition dict_get :: "'v pydict \<Rightarrow> pystr \<Rightarrow> 'v \<Rightarrow> 'v" where
  "dict_get d k dflt = (case DAList.lookup d k of None \<Rightarrow> dflt | Some v \<Rightarrow> v)"

subsection \<open>The store and its snapshot file\<close>

text \<open>
  The attributes of \<^verbatim>\<open>SimpleVectorStore\<close>. The components of an embedding are
  floating-point numbers; the store only keeps them and hands them to numpy, so their
  type is a parameter.
\<close>

record 'f store =
  persist_path :: pystr
  documents :: "pystr pydict"
  embeddings :: "'f list pydict"
  metadatas :: "metadata pydict"

text \<open>
  The dictionary \<^verbatim>\<open>_save\<close> pickles and \<^verbatim>\<open>_load\<close> reads with
  \<^verbatim>\<open>data.get(key, {})\<close>: each of the three keys is present or not.
\<close>

record 'f snapshot =
  snap_documents :: "pystr pydict option"
  snap_embeddings :: "'f list pydict option"
  snap_metadatas :: "metadata pydict option"

text \<open>
  The file system: the contents of the files (of some type \<open>'b\<close>), and what the
  operating system allows. \<open>dir_ok p\<close> says that \<^verbatim>\<open>os.makedirs(p, exist_ok=True)\<close>
  succeeds, \<open>open_ok p\<close> that \<^verbatim>\<open>open(p, "wb")\<close> succeeds. \<^verbatim>\<open>os.makedirs("")\<close> always
  raises.

  The \<^verbatim>\<open>pickle\<close> library is not part of the program; it is a pair of parameters.
  \<open>pdump x\<close> is what \<^verbatim>\<open>pickle.dump(x, f)\<close> leaves in the file: \<open>Inr b\<close> when it
  returns, \<open>Inl b\<close> when it raises after writing \<open>b\<close>. \<open>pload b\<close> is what reading the
  file and \<^verbatim>\<open>pickle.load\<close> give, \<open>None\<close> when that raises or the object is not such
  a dictionary.
\<close>

record 'b fs =
  files :: "pystr \<Rightarrow> 'b option"
  dir_ok :: "pystr \<Rightarrow> bool"
  open_ok :: "pystr \<Rightarrow> bool"

text \<open>\<^verbatim>\<open>os.path.join(a, b)\<close> on a POSIX system.\<close>

definition path_join :: "pystr \<Rightarrow> pystr \<Rightarrow> pystr" where
  "path_join a b =
     (if b \<noteq> [] \<and> hd b = 47 then b
      else if a = [] \<or> last a = 47 then a @ b
      else a @ [47] @ b)"

definition data_file :: "pystr \<Rightarrow> pystr" where
  "data_file path = path_join path (py ''vector_store.pkl'')"

text \<open>
  The dictionary \<^verbatim>\<open>_save\<close> dumps:
  \<^verbatim>\<open>{"documents": ..., "embeddings": ..., "metadatas": ...}\<close>.
\<close>

definition snapshot_of :: "'f store \<Rightarrow> 'f snapshot" where
  "snapshot_of s =
     \<lparr>snap_documents = Some (documents s),
      snap_embeddings = Some (embeddings s),
      snap_metadatas = Some (metadatas s)\<rparr>"

text \<open>
  \<^verbatim>\<open>_save\<close>. \<^verbatim>\<open>os.makedirs\<close> stands before the \<^verbatim>\<open>try\<close>: when it raises, \<^verbatim>\<open>_save\<close>
  raises (\<open>Inl OSError\<close>). Inside the \<^verbatim>\<open>try\<close>, a failing \<^verbatim>\<open>open\<close> writes nothing
  and a failing \<^verbatim>\<open>pickle.dump\<close> leaves what it had written; both are logged and
  \<^verbatim>\<open>_save\<close> returns.
\<close>

definition save :: "('f snapshot \<Rightarrow> 'b + 'b) \<Rightarrow> 'f store \<Rightarrow> 'b fs \<Rightarrow> py_error + 'b fs" where
  "save pdump s env =
     (if persist_path s = [] \<or> \<not> dir_ok env (persist_path s) then Inl OSError
      else if \<not> open_ok env (data_file (persist_path s)) then Inr env
      else Inr (env\<lparr>files := (files env)(data_file (persist_path s) \<mapsto>
                  (case pdump (snapshot_of s) of Inl b \<Rightarrow> b | Inr b \<Rightarrow> b))\<rparr>))"

text \<open>
  \<^verbatim>\<open>_load\<close>: nothing happens when the file does not exist or cannot be read; otherwise
  the three dictionaries are taken from the pickled one.
\<close>

definition load :: "('b \<Rightarrow> 'f snapshot option) \<Rightarrow> 'f store \<Rightarrow> 'b fs \<Rightarrow> 'f store" where
  "load pload s env =
     (case files env (data_file (persist_path s)) of
        None \<Rightarrow> s
      | Some bytes \<Rightarrow>
          (case pload bytes of
             None \<Rightarrow> s
           | Some data \<Rightarrow>
               s\<lparr>documents := (case snap_documents data of None \<Rightarrow> DAList.empty | Some d \<Rightarrow> d),
                 embeddings := (case snap_embeddings data of None \<Rightarrow> DAList.empty | Some d \<Rightarrow> d),
                 metadatas := (case snap_metadatas data of None \<Rightarrow> DAList.empty | Some d \<Rightarrow> d)\<rparr>))"

text \<open>\<^verbatim>\<open>SimpleVectorStore(persist_path)\<close>: three empty dictionaries, then \<^verbatim>\<open>_load\<close>.\<close>

definition init_store :: "('b \<Rightarrow> 'f snapshot option) \<Rightarrow> pystr \<Rightarrow> 'b fs \<Rightarrow> 'f store" where
  "init_store pload path env =
     load pload \<lparr>persist_path = path, documents = DAList.empty, embeddings = DAList.empty,
                 metadatas = DAList.empty\<rparr> env"

subsection \<open>add\<close>

text \<open>
  A method call that raises leaves the store as it was at the \<^verbatim>\<open>raise\<close>: a call gives
  the exception raised, if any, together with the state after the call.

  The loop \<^verbatim>\<open>for i, id in enumerate(ids)\<close> of \<^verbatim>\<open>add\<close>; \<open>i\<close> is the index of the
  first identifier of the list (\<open>cid\<close> stands for the source's \<^verbatim>\<open>id\<close>). Reading past
  the end of one of the other lists raises \<^verbatim>\<open>IndexError\<close>, after the assignments made
  so far.
\<close>

fun add_entries ::
  "'f store \<Rightarrow> nat \<Rightarrow> pystr list \<Rightarrow> pystr list \<Rightarrow> 'f list list \<Rightarrow> metadata list \<Rightarrow>
   py_error option \<times> 'f store" where
  "add_entries s i [] docs embs metas = (None, s)"
| "add_entries s i (cid # ids) docs embs metas =
     (if length docs \<le> i then (Some IndexError, s)
      else if length embs \<le> i
        then (Some IndexError, s\<lparr>documents := DAList.update cid (docs ! i) (documents s)\<rparr>)
      else if length metas \<le> i
        then (Some IndexError,
              s\<lparr>documents := DAList.update cid (docs ! i) (documents s),
                embeddings := DAList.update cid (embs ! i) (embeddings s)\<rparr>)
      else add_entries
             (s\<lparr>documents := DAList.update cid (docs ! i) (documents s),
                embeddings := DAList.update cid (embs ! i) (embeddings s),
                metadatas := DAList.update cid (metas ! i) (metadatas s)\<rparr>)
             (Suc i) ids docs embs metas)"

text \<open>\<^verbatim>\<open>add\<close>: the loop, then \<^verbatim>\<open>self._save()\<close>.\<close>

definition add ::
  "('f snapshot \<Rightarrow> 'b + 'b) \<Rightarrow> 'f store \<times> 'b fs \<Rightarrow> pystr list \<Rightarrow> pystr list \<Rightarrow> 'f list list \<Rightarrow>
   metadata list \<Rightarrow> py_error option \<times> 'f store \<times> 'b fs" where
  "add pdump w ids docs embs metas =
     (case add_entries (fst w) 0 ids docs embs metas of
        (Some e, s) \<Rightarrow> (Some e, s, snd w)
      | (None, s) \<Rightarrow>
          (case save pdump s (snd w) of
             Inl e \<Rightarrow> (Some e, s, snd w)
           | Inr env \<Rightarrow> (None, s, env)))"

subsection \<open>Filters\<close>

text \<open>
  \<^verbatim>\<open>_matches_filter(metadata, where)\<close>: the loop over \<^verbatim>\<open>where.items()\<close>, with its
  three \<^verbatim>\<open>return False\<close>.
\<close>

fun matches_items :: "metadata \<Rightarrow> (pystr \<times> pyval) list \<Rightarrow> bool" where
  "matches_items metadata [] = True"
| "matches_items metadata ((key, expected) # rest) =
     (case DAList.lookup metadata key of
        None \<Rightarrow> False
      | Some meta_value \<Rightarrow>
          (case meta_value of
             PList xs \<Rightarrow> if expected \<notin> set xs then False else matches_items metadata rest
           | _ \<Rightarrow> if meta_value \<noteq> expected then False else matches_items metadata rest))"

definition matches_filter :: "metadata \<Rightarrow> pyval pydict \<Rightarrow> bool" where
  "matches_filter metadata flt = matches_items metadata (DAList.impl_of flt)"

text \<open>
  The test \<^verbatim>\<open>where is None or self._matches_filter(metadata, where)\<close> of \<^verbatim>\<open>get\<close> and
  \<^verbatim>\<open>query\<close>.
\<close>

definition selects :: "pyval pydict option \<Rightarrow> metadata \<Rightarrow> bool" where
  "selects flt metadata = (case flt of None \<Rightarrow> True | Some w \<Rightarrow> matches_filter metadata w)"

subsection \<open>get\<close>

record get_result =
  res_ids :: "pystr list"
  res_documents :: "pystr list option"
  res_metadatas :: "metadata list option"

definition get :: "'f store \<Rightarrow> pyval pydict option \<Rightarrow> pystr list option \<Rightarrow> get_result" where
  "get s flt incl =
     (let hits = filter (\<lambda>(cid, metadata). selects flt metadata) (DAList.impl_of (metadatas s));
          result_documents =
            (if incl = None \<or> py ''documents'' \<in> set (case incl of None \<Rightarrow> [] | Some l \<Rightarrow> l)
             then map (\<lambda>(cid, metadata). dict_get (documents s) cid []) hits else []);
          result_metadatas =
            (if incl = None \<or> py ''metadatas'' \<in> set (case incl of None \<Rightarrow> [] | Some l \<Rightarrow> l)
             then map snd hits else [])
      in \<lparr>res_ids = map fst hits,
          res_documents = (if result_documents \<noteq> [] then Some result_documents else None),
          res_metadatas = (if result_metadatas \<noteq> [] then Some result_metadatas else None)\<rparr>)"

subsection \<open>query\<close>

text \<open>
  The first loop of \<^verbatim>\<open>query\<close>: the identifiers whose metadata passes the filter, in
  the order of the dictionary.
\<close>

definition candidates_of :: "'f store \<Rightarrow> pyval pydict option \<Rightarrow> pystr list" where
  "candidates_of s flt =
     map fst (filter (\<lambda>(cid, metadata). selects flt metadata) (DAList.impl_of (metadatas s)))"

text \<open>
  The records \<^verbatim>\<open>query\<close> selects for ranking: none when \<^verbatim>\<open>self.embeddings\<close> is empty
  (the first early return), the candidates otherwise.
\<close>

definition query_candidates :: "'f store \<Rightarrow> pyval pydict option \<Rightarrow> pystr list" where
  "query_candidates s flt =
     (if DAList.impl_of (embeddings s) = [] then [] else candidates_of s flt)"







subsection \<open>delete\<close>

text \<open>
  The second loop of \<^verbatim>\<open>delete\<close>: \<^verbatim>\<open>del d[id]\<close> raises \<^verbatim>\<open>KeyError\<close> when the key is
  missing, after the deletions made so far.
\<close>

fun delete_ids :: "'f store \<Rightarrow> pystr list \<Rightarrow> py_error option \<times> 'f store" where
  "delete_ids s [] = (None, s)"
| "delete_ids s (cid # rest) =
     (if cid \<notin> keys (documents s) then (Some KeyError, s)
      else if cid \<notin> keys (embeddings s)
        then (Some KeyError, s\<lparr>documents := DAList.delete cid (documents s)\<rparr>)
      else if cid \<notin> keys (metadatas s)
        then (Some KeyError,
              s\<lparr>documents := DAList.delete cid (documents s),
                embeddings := DAList.delete cid (embeddings s)\<rparr>)
      else delete_ids
             (s\<lparr>documents := DAList.delete cid (documents s),
                embeddings := DAList.delete cid (embeddings s),
                metadatas := DAList.delete cid (metadatas s)\<rparr>)
             rest)"

definition to_delete :: "'f store \<Rightarrow> pyval pydict \<Rightarrow> pystr list" where
  "to_delete s flt =
     map fst (filter (\<lambda>(cid, metadata). matches_filter metadata flt) (DAList.impl_of (metadatas s)))"

text \<open>
  \<^verbatim>\<open>delete(where)\<close>: what it returns (the number of records removed) or raises, and
  the state after the call.
\<close>

definition delete ::
  "('f snapshot \<Rightarrow> 'b + 'b) \<Rightarrow> 'f store \<times> 'b fs \<Rightarrow> pyval pydict \<Rightarrow>
   (py_error + nat) \<times> 'f store \<times> 'b fs" where
  "delete pdump w flt =
     (case delete_ids (fst w) (to_delete (fst w) flt) of
        (Some e, s) \<Rightarrow> (Inl e, s, snd w)
      | (None, s) \<Rightarrow>
          (case save pdump s (snd w) of
             Inl e \<Rightarrow> (Inl e, s, snd w)
           | Inr env \<Rightarrow> (Inr (length (to_delete (fst w) flt)), s, env)))"

subsection \<open>The older copy of the store (app/services/vector_store.py)\<close>

text \<open>
  The older copy differs from the backend one in the filter test only, which it
  writes in place: \<^verbatim>\<open>all(metadata.get(k) == v for k, v in where.items())\<close>.
\<close>

definition matches_app :: "metadata \<Rightarrow> pyval pydict \<Rightarrow> bool" where
  "matches_app metadata flt \<longleftrightarrow>
     list_all (\<lambda>(k, v). dict_get metadata k PNone = v) (DAList.impl_of flt)"

definition selects_app :: "pyval pydict option \<Rightarrow> metadata \<Rightarrow> bool" where
  "selects_app flt metadata = (case flt of None \<Rightarrow> True | Some w \<Rightarrow> matches_app metadata w)"

definition get_app :: "'f store \<Rightarrow> pyval pydict option \<Rightarrow> pystr list option \<Rightarrow> get_result" where
  "get_app s flt incl =
     (let hits = filter (\<lambda>(cid, metadata). selects_app flt metadata) (DAList.impl_of (metadatas s));
          result_documents =
            (if incl = None \<or> py ''documents'' \<in> set (case incl of None \<Rightarrow> [] | Some l \<Rightarrow> l)
             then map (\<lambda>(cid, metadata). dict_get (documents s) cid []) hits else []);
          result_metadatas =
            (if incl = None \<or> py ''metadatas'' \<in> set (case incl of None \<Rightarrow> [] | Some l \<Rightarrow> l)
             then map snd hits else [])
      in \<lparr>res_ids = map fst hits,
          res_documents = (if result_documents \<noteq> [] then Some result_documents else None),
          res_metadatas = (if result_metadatas \<noteq> [] then Some result_metadatas else None)\<rparr>)"

definition query_candidates_app :: "'f store \<Rightarrow> pyval pydict option \<Rightarrow> pystr list" where
  "query_candidates_app s flt =
     (if DAList.impl_of (embeddings s) = [] then []
      else map fst (filter (\<lambda>(cid, metadata). selects_app flt metadata)
                      (DAList.impl_of (metadatas s))))"

definition to_delete_app :: "'f store \<Rightarrow> pyval pydict \<Rightarrow> pystr list" where
  "to_delete_app s flt =
     map fst (filter (\<lambda>(cid, metadata). matches_app metadata flt) (DAList.impl_of (metadatas s)))"

subsection \<open>Sequences of mutations\<close>

datatype 'f store_op =
  Add "pystr list" "pystr list" "'f list list" "metadata list"
| Delete "pyval pydict"

fun apply_op ::
  "('f snapshot \<Rightarrow> 'b + 'b) \<Rightarrow> 'f store \<times> 'b fs \<Rightarrow> 'f store_op \<Rightarrow>
   py_error option \<times> 'f store \<times> 'b fs" where
  "apply_op pdump w (Add ids docs embs metas) = add pdump w ids docs embs metas"
| "apply_op pdump w (Delete flt) =
     (case delete pdump w flt of
        (Inl e, w') \<Rightarrow> (Some e, w')
      | (Inr n, w') \<Rightarrow> (None, w'))"

text \<open>
  The calls of a sequence made one after the other on the same store, whether or not an
  earlier one raised: the exception of each call, and the state after the last.
\<close>

fun run_ops ::
  "('f snapshot \<Rightarrow> 'b + 'b) \<Rightarrow> 'f store \<times> 'b fs \<Rightarrow> 'f store_op list \<Rightarrow>
   py_error option list \<times> 'f store \<times> 'b fs" where
  "run_ops pdump w [] = ([], w)"
| "run_ops pdump w (op # ops) =
     (case apply_op pdump w op of
        (e, w') \<Rightarrow> (case run_ops pdump w' ops of (es, w'') \<Rightarrow> (e # es, w'')))"

subsection \<open>Notions used to state the store's properties\<close>

text \<open>The key-set invariant of the store: the three dictionaries have the same keys.\<close>

definition key_inv :: "'f store \<Rightarrow> bool" where
  "key_inv s \<longleftrightarrow>
     keys (documents s) = keys (embeddings s) \<and> keys (embeddings s) = keys (metadatas s)"

text \<open>An \<^verbatim>\<open>add\<close> whose four lists have the same length.\<close>

fun equal_lengths :: "'f store_op \<Rightarrow> bool" where
  "equal_lengths (Add ids docs embs metas) \<longleftrightarrow>
     length docs = length ids \<and> length embs = length ids \<and> length metas = length ids"
| "equal_lengths (Delete flt) \<longleftrightarrow> True"

text \<open>The snapshot directory of the store can be created (or exists).\<close>

definition dir_available :: "'f store \<Rightarrow> 'b fs \<Rightarrow> bool" where
  "dir_available s env \<longleftrightarrow> persist_path s \<noteq> [] \<and> dir_ok env (persist_path s)"

text \<open>The records whose metadata matches a filter.\<close>

definition matching :: "'f store \<Rightarrow> pyval pydict \<Rightarrow> pystr set" where
  "matching s flt =
     {cid. \<exists>metadata. DAList.lookup (metadatas s) cid = Some metadata \<and> matches_filter metadata flt}"

text \<open>
  The specification's wording of the filter: for every filter key, the record's field
  is a list that contains the expected value, or the field equals the expected value.
\<close>

definition spec_matches :: "metadata \<Rightarrow> pyval pydict \<Rightarrow> bool" where
  "spec_matches metadata flt \<longleftrightarrow>
     list_all (\<lambda>(key, expected).
        (case DAList.lookup metadata key of Some (PList xs) \<Rightarrow> expected \<in> set xs | _ \<Rightarrow> False) \<or>
        DAList.lookup metadata key = Some expected) (DAList.impl_of flt)"

text \<open>
  The filter condition as the backend copy decides it: the field is present and, when
  it is a list, contains the expected value, otherwise equals it.
\<close>

definition filter_holds :: "metadata \<Rightarrow> pyval pydict \<Rightarrow> bool" where
  "filter_holds metadata flt \<longleftrightarrow>
     list_all (\<lambda>(key, expected).
        (case DAList.lookup metadata key of
           None \<Rightarrow> False
         | Some (PList xs) \<Rightarrow> expected \<in> set xs
         | Some meta_value \<Rightarrow> meta_value = expected)) (DAList.impl_of flt)"

text \<open>
  The filter condition as the older copy decides it: the field equals the expected
  value, a missing field counting as \<^verbatim>\<open>None\<close>.
\<close>

definition filter_holds_app :: "metadata \<Rightarrow> pyval pydict \<Rightarrow> bool" where
  "filter_holds_app metadata flt \<longleftrightarrow>
     list_all (\<lambda>(key, expected).
        (case DAList.lookup metadata key of
           None \<Rightarrow> expected = PNone
         | Some meta_value \<Rightarrow> meta_value = expected)) (DAList.impl_of flt)"




subsection \<open>Example values\<close>

text \<open>
  A store with one chunk of document \<open>X\<close> (tagged with two standards) and one of document
  \<open>Y\<close>, and the values used in the examples below. In the examples the embedding
  components and the distances are integers, the distance is the squared Euclidean
  one, and a file holds the dumped dictionary itself.
\<close>

definition example_metadata :: "string \<Rightarrow> string list \<Rightarrow> metadata" where
  "example_metadata doc stds =
     DAList.update (py ''standards_referenced'') (PList (map (\<lambda>n. PStr (py n)) stds))
       (DAList.update (py ''doc_id'') (PStr (py doc)) DAList.empty)"

definition empty_store :: "int store" where
  "empty_store =
     \<lparr>persist_path = py ''db'', documents = DAList.empty, embeddings = DAList.empty,
      metadatas = DAList.empty\<rparr>"

definition example_store :: "int store" where
  "example_store =
     \<lparr>persist_path = py ''db'',
      documents = DAList.update (py ''Y_chunk_0'') (py ''beta'')
                    (DAList.update (py ''X_chunk_0'') (py ''alpha'') DAList.empty),
      embeddings = DAList.update (py ''Y_chunk_0'') [0, 1]
                     (DAList.update (py ''X_chunk_0'') [1, 0] DAList.empty),
      metadatas = DAList.update (py ''Y_chunk_0'') (example_metadata ''Y'' [])
                    (DAList.update (py ''X_chunk_0'')
                       (example_metadata ''X'' [''ISO 10993'', ''IEC 62304'']) DAList.empty)\<rparr>"


text \<open>A state with a record in the metadata only.\<close>

definition no_embeddings_store :: "int store" where
  "no_embeddings_store =
     \<lparr>persist_path = py ''db'', documents = DAList.empty, embeddings = DAList.empty,
      metadatas = DAList.update (py ''X_chunk_0'') (example_metadata ''X'' []) DAList.empty\<rparr>"

definition example_ops :: "int store_op list" where
  "example_ops =
     [Add [py ''X_chunk_0'', py ''Y_chunk_0''] [py ''alpha'', py ''beta''] [[1, 0], [0, 1]]
        [example_metadata ''X'' [''ISO 10993'', ''IEC 62304''], example_metadata ''Y'' []],
      Delete (DAList.update (py ''doc_id'') (PStr (py ''X'')) DAList.empty)]"

definition example_fs :: "int snapshot fs" where
  "example_fs = \<lparr>files = Map.empty, dir_ok = (\<lambda>p. True), open_ok = (\<lambda>p. True)\<rparr>"


section \<open>Strings: basic facts\<close>

lemma length_strip_le: "length (strip s) \<le> length s"
proof -
  have "length (dropWhile is_space (rev (dropWhile is_space s))) \<le> length (rev (dropWhile is_space s))"
    by (rule length_dropWhile_le)
  also have "\<dots> \<le> length s"
    by (simp add: length_dropWhile_le)
  finally show ?thesis by (simp add: strip_def)
qed

lemma length_slice_le:
  "0 \<le> i \<Longrightarrow> 0 \<le> j \<Longrightarrow> length (slice xs i j) \<le> nat (j - i)"
  by (auto simp: slice_def adjust_index_def Let_def)

lemma rfind_bounds:
  assumes "0 \<le> b" "0 \<le> e"
  shows "rfind s sub b e = - 1 \<or> (b \<le> rfind s sub b e \<and> rfind s sub b e + int (length sub) \<le> e)"
proof (cases "rfind s sub b e = - 1")
  case True
  then show ?thesis by simp
next
  case False
  define e' where "e' = (if e > int (length s) then int (length s) else e)"
  define cands where "cands = filter (\<lambda>i. take (length sub) (drop i s) = sub)
                      (rev [nat b ..< Suc (nat (e' - int (length sub)))])"
  have unf: "rfind s sub b e = (if e' - b < int (length sub) then - 1
         else (case cands of [] \<Rightarrow> - 1 | i # _ \<Rightarrow> int i))"
  proof -
    have e_eq: "(if e > int (length s) then int (length s)
                 else if e < 0 then max 0 (e + int (length s)) else e) = e'"
      using assms by (simp add: e'_def)
    have b_eq: "(if b < 0 then max 0 (b + int (length s)) else b) = b"
      using assms by simp
    show ?thesis
      unfolding rfind_def Let_def e_eq b_eq cands_def by (rule refl)
  qed
  from False unf have ge: "\<not> e' - b < int (length sub)"
    by (auto split: if_splits)
  from False unf ge obtain i rest where c: "cands = i # rest" and r: "rfind s sub b e = int i"
    by (cases cands) auto
  have "i \<in> set cands" using c by simp
  then have "nat b \<le> i" "i \<le> nat (e' - int (length sub))"
    by (auto simp: cands_def)
  moreover have "e' \<le> e" by (simp add: e'_def)
  ultimately show ?thesis using r assms ge by auto
qed

lemma strip_decomp:
  "\<exists>pre suf. w = pre @ strip w @ suf \<and> (\<forall>c\<in>set pre. is_space c) \<and> (\<forall>c\<in>set suf. is_space c)"
proof -
  let ?pre = "takeWhile is_space w"
  let ?rest = "dropWhile is_space w"
  let ?suf = "rev (takeWhile is_space (rev ?rest))"
  have "strip w @ ?suf = rev (takeWhile is_space (rev ?rest) @ dropWhile is_space (rev ?rest))"
    by (simp only: strip_def rev_append)
  also have "\<dots> = ?rest"
    by simp
  finally have "?rest = strip w @ ?suf"
    by simp
  then have "w = ?pre @ strip w @ ?suf"
    by (metis takeWhile_dropWhile_id)
  moreover have "\<forall>c\<in>set ?pre. is_space c"
    by (auto dest: set_takeWhileD)
  moreover have "\<forall>c\<in>set ?suf. is_space c"
    by (auto dest: set_takeWhileD)
  ultimately show ?thesis by blast
qed

lemma strip_Nil_iff: "strip w = [] \<longleftrightarrow> (\<forall>c\<in>set w. is_space c)"
proof
  assume "strip w = []"
  with strip_decomp[of w] show "\<forall>c\<in>set w. is_space c"
    by (metis Un_iff append_Nil set_append)
next
  assume "\<forall>c\<in>set w. is_space c"
  then have d: "dropWhile is_space w = []" by (simp add: dropWhile_eq_Nil_conv)
  show "strip w = []" by (simp only: strip_def d rev.simps dropWhile.simps)
qed

lemma strip_covers:
  assumes "k < length w" "\<not> is_space (w ! k)"
  shows "\<exists>a. a \<le> k \<and> k < a + length (strip w) \<and> a + length (strip w) \<le> length w \<and>
             take (length (strip w)) (drop a w) = strip w"
proof -
  define mid where "mid = strip w"
  from strip_decomp[of w] obtain pre suf where
    w: "w = pre @ mid @ suf" and pre: "\<forall>c\<in>set pre. is_space c" and suf: "\<forall>c\<in>set suf. is_space c"
    unfolding mid_def by blast
  have len: "length w = length pre + length mid + length suf"
    using w by simp
  have 1: "length pre \<le> k"
  proof (rule ccontr)
    assume "\<not> length pre \<le> k"
    then have "k < length pre" by simp
    then have "w ! k = pre ! k" using w by (simp add: nth_append)
    with pre \<open>k < length pre\<close> assms(2) show False by (metis nth_mem)
  qed
  have 2: "k < length pre + length mid"
  proof (rule ccontr)
    assume n: "\<not> k < length pre + length mid"
    then have "\<not> k - length pre < length mid" "\<not> k < length pre"
      using 1 by arith+
    then have "w ! k = suf ! (k - length pre - length mid)"
      using w by (simp add: nth_append)
    moreover have "k - length pre - length mid < length suf"
      using n assms(1) len by simp
    ultimately show False using suf assms(2) by (metis nth_mem)
  qed
  have 3: "take (length mid) (drop (length pre) w) = mid"
    using w by simp
  show ?thesis using 1 2 3 len unfolding mid_def by (intro exI[of _ "length pre"]) simp
qed

section \<open>One iteration of the chunking loop\<close>

lemma sentence_break_bounds:
  assumes "0 \<le> start" "0 \<le> h" "start + h < e" "\<forall>sep\<in>set seps. sep \<noteq> []" "h = chunk_size div 2"
  shows "start + h < sentence_break text chunk_size start e seps \<and>
         sentence_break text chunk_size start e seps \<le> e"
  using assms
proof (induction seps)
  case Nil
  have "rfind text [32] (start + h) e = - 1 \<or>
        (start + h \<le> rfind text [32] (start + h) e \<and> rfind text [32] (start + h) e + int (length [32::nat]) \<le> e)"
    using Nil.prems rfind_bounds[of "start + h" e "text" "[32]"] by simp
  with Nil.prems show ?case by (auto simp: Let_def)
next
  case (Cons sep seps)
  have "rfind text sep (start + h) e = - 1 \<or>
        (start + h \<le> rfind text sep (start + h) e \<and> rfind text sep (start + h) e + int (length sep) \<le> e)"
    using Cons.prems rfind_bounds[of "start + h" e "text" sep] by simp
  moreover have "1 \<le> int (length sep)" using Cons.prems by (cases sep) auto
  ultimately show ?case using Cons by (auto simp: Let_def)
qed

lemma find_end_bounds:
  assumes "1 \<le> chunk_size" "0 \<le> start"
  shows "start + chunk_size div 2 < find_end text chunk_size start"
    and "find_end text chunk_size start \<le> start + chunk_size"
proof -
  have h: "0 \<le> chunk_size div 2" "start + chunk_size div 2 < start + chunk_size"
    using assms by auto
  have sb: "start + chunk_size div 2 < sentence_break text chunk_size start (start + chunk_size) separators \<and>
        sentence_break text chunk_size start (start + chunk_size) separators \<le> start + chunk_size"
    using assms h by (intro sentence_break_bounds) (auto simp: separators_def)
  have pb: "rfind text [10, 10] start (start + chunk_size) = - 1 \<or>
        (start \<le> rfind text [10, 10] start (start + chunk_size) \<and>
         rfind text [10, 10] start (start + chunk_size) + int (length [10, 10::nat]) \<le> start + chunk_size)"
    using assms rfind_bounds[of start "start + chunk_size" "text" "[10, 10]"] by simp
  show "start + chunk_size div 2 < find_end text chunk_size start"
    using sb pb h assms by (auto simp: find_end_def Let_def)
  show "find_end text chunk_size start \<le> start + chunk_size"
    using sb pb h assms by (auto simp: find_end_def Let_def)
qed

lemma next_start_bounds:
  assumes "1 \<le> chunk_size" "0 \<le> chunk_overlap" "0 \<le> start"
  shows "start < next_start text chunk_size chunk_overlap start"
    and "next_start text chunk_size chunk_overlap start \<le> find_end text chunk_size start"
    and "start + max 1 (chunk_size div 2 + 1 - chunk_overlap) \<le> next_start text chunk_size chunk_overlap start"
  using find_end_bounds[OF assms(1,3), of "text"] assms
  by (auto simp: next_start_def Let_def)

lemma chunk_at_length:
  assumes "1 \<le> chunk_size" "0 \<le> start"
  shows "int (length (chunk_at text chunk_size start)) \<le> chunk_size"
proof -
  let ?e = "find_end text chunk_size start"
  have e: "start < ?e" "?e \<le> start + chunk_size"
    using find_end_bounds[OF assms, of "text"] assms by auto
  have "length (chunk_at text chunk_size start) \<le> length (slice text start ?e)"
    unfolding chunk_at_def by (rule length_strip_le)
  also have "\<dots> \<le> nat (?e - start)"
    using assms e by (intro length_slice_le) auto
  finally show ?thesis using e by simp
qed

lemma take_drop_take:
  "a + l \<le> m \<Longrightarrow> take l (drop a (take m xs)) = take l (drop a xs)"
  by (simp add: drop_take min_def)

lemma chunk_at_covers:
  assumes cs: "1 \<le> chunk_size" and s: "0 \<le> start"
    and j1: "start \<le> int j" and j2: "int j < find_end text chunk_size start"
    and jn: "j < length text" and ns: "\<not> is_space (text ! j)"
  shows "covers text (chunk_at text chunk_size start) j"
proof -
  define e where "e = find_end text chunk_size start"
  define a where "a = nat start"
  define b where "b = min (nat e) (length text)"
  define w where "w = take (b - a) (drop a text)"
  have aj: "a \<le> j" "j < b" using j1 j2 jn s by (auto simp: a_def b_def e_def)
  have sl: "slice text start e = w"
    using s j2 j1 aj jn by (auto simp: slice_def adjust_index_def Let_def w_def a_def b_def e_def)
  have k: "j - a < length w" using aj jn by (simp add: w_def b_def)
  have wk: "w ! (j - a) = text ! j" using aj jn k by (simp add: w_def)
  from strip_covers[OF k] ns wk obtain a' where
    a': "a' \<le> j - a" "j - a < a' + length (strip w)" "a' + length (strip w) \<le> length w"
      "take (length (strip w)) (drop a' w) = strip w"
    by auto
  have lw: "length w \<le> b - a" by (simp add: w_def)
  have "a' + length (strip w) \<le> b - a" using a'(3) lw by simp
  then have "take (length (strip w)) (drop a' (take (b - a) (drop a text))) =
             take (length (strip w)) (drop a' (drop a text))"
    by (rule take_drop_take)
  then have "take (length (strip w)) (drop (a + a') text) = take (length (strip w)) (drop a' w)"
    by (simp add: w_def add.commute)
  with a'(4) have "take (length (strip w)) (drop (a + a') text) = strip w" by simp
  moreover have "a + a' \<le> j" "j < (a + a') + length (strip w)" using a' aj by auto
  ultimately have "covers text (strip w) j"
    unfolding covers_def by (intro bexI[of _ "a + a'"]) auto
  then show ?thesis by (simp add: chunk_at_def sl[unfolded e_def])
qed

lemma covers_length: "covers text ch j \<Longrightarrow> ch \<noteq> []"
  by (auto simp: covers_def)

section \<open>The chunking loop\<close>

text \<open>A total-correctness rule for the loop: an invariant of the loop state holds at exit.\<close>

lemma chunk_loop_rule:
  assumes cs: "1 \<le> chunk_size" and ov: "0 \<le> chunk_overlap"
    and st: "0 \<le> start"
    and I0: "I start chunks iters"
    and step: "\<And>s c i. 0 \<le> s \<Longrightarrow> s < int (length text) \<Longrightarrow> I s c i \<Longrightarrow>
                I (next_start text chunk_size chunk_overlap s)
                  (if chunk_at text chunk_size s \<noteq> [] then c @ [chunk_at text chunk_size s] else c)
                  (Suc i)"
  shows "\<exists>s' c i. chunk_loop text chunk_size chunk_overlap start chunks iters = Some (c, i) \<and>
           I s' c i \<and> int (length text) \<le> s'"
  using st I0
proof (induction "nat (int (length text) - start)" arbitrary: start chunks iters rule: less_induct)
  case less
  show ?case
  proof (cases "start < int (length text)")
    case True
    let ?s = "next_start text chunk_size chunk_overlap start"
    let ?c = "if chunk_at text chunk_size start \<noteq> [] then chunks @ [chunk_at text chunk_size start] else chunks"
    have adv: "start < ?s"
      using next_start_bounds(1)[OF cs ov less.prems(1)] .
    then have m: "nat (int (length text) - ?s) < nat (int (length text) - start)"
      using True by simp
    have "0 \<le> ?s" using adv less.prems(1) by simp
    moreover have "I ?s ?c (Suc iters)"
      using step[OF less.prems(1) True less.prems(2)] .
    ultimately have "\<exists>s' c i. chunk_loop text chunk_size chunk_overlap ?s ?c (Suc iters) = Some (c, i) \<and>
           I s' c i \<and> int (length text) \<le> s'"
      using less.hyps[OF m] by blast
    moreover have "chunk_loop text chunk_size chunk_overlap start chunks iters =
        chunk_loop text chunk_size chunk_overlap ?s ?c (Suc iters)"
      using True by (subst chunk_loop.simps) simp
    ultimately show ?thesis by simp
  next
    case False
    then have "chunk_loop text chunk_size chunk_overlap start chunks iters = Some (chunks, iters)"
      by (subst chunk_loop.simps) simp
    with False less.prems show ?thesis by auto
  qed
qed

lemma strip_Nil [simp]: "strip [] = []"
  by (simp add: strip_def)

lemma chunk_run_unfold:
  "chunk_run t chunk_size chunk_overlap =
     (if strip t = [] then Some ([], 0)
      else if int (length (strip t)) \<le> chunk_size then Some ([strip t], 0)
      else chunk_loop (strip t) chunk_size chunk_overlap 0 [] 0)"
  by (auto simp: chunk_run_def Let_def)

lemma chunk_loop_sizes:
  assumes "1 \<le> chunk_size" "0 \<le> chunk_overlap"
  shows "\<exists>c i. chunk_loop text chunk_size chunk_overlap 0 [] 0 = Some (c, i) \<and>
           (\<forall>ch\<in>set c. int (length ch) \<le> chunk_size)"
proof -
  have "\<exists>s' c i. chunk_loop text chunk_size chunk_overlap 0 [] 0 = Some (c, i) \<and>
           (\<forall>ch\<in>set c. int (length ch) \<le> chunk_size) \<and> int (length text) \<le> s'"
  proof (rule chunk_loop_rule[where I = "\<lambda>s c i. \<forall>ch\<in>set c. int (length ch) \<le> chunk_size"])
    fix s :: int and c :: "pystr list" and i :: nat
    assume "0 \<le> s" "\<forall>ch\<in>set c. int (length ch) \<le> chunk_size"
    then show "\<forall>ch\<in>set (if chunk_at text chunk_size s \<noteq> [] then c @ [chunk_at text chunk_size s] else c).
                 int (length ch) \<le> chunk_size"
      using chunk_at_length[OF assms(1), of s "text"] by auto
  qed (use assms in auto)
  then show ?thesis by blast
qed

lemma chunk_loop_iters:
  assumes "1 \<le> chunk_size" "0 \<le> chunk_overlap"
  shows "\<exists>c i. chunk_loop text chunk_size chunk_overlap 0 [] 0 = Some (c, i) \<and>
           (0 < i \<longrightarrow> (int i - 1) * min_advance chunk_size chunk_overlap < int (length text))"
proof -
  let ?p = "min_advance chunk_size chunk_overlap"
  have "\<exists>s' c i. chunk_loop text chunk_size chunk_overlap 0 [] 0 = Some (c, i) \<and>
           (int i * ?p \<le> s' \<and> (0 < i \<longrightarrow> (int i - 1) * ?p < int (length text))) \<and>
           int (length text) \<le> s'"
  proof (rule chunk_loop_rule[where I = "\<lambda>s c i. int i * ?p \<le> s \<and>
             (0 < i \<longrightarrow> (int i - 1) * ?p < int (length text))"])
    fix s :: int and c :: "pystr list" and i :: nat
    assume s: "0 \<le> s" "s < int (length text)"
      and I: "int i * ?p \<le> s \<and> (0 < i \<longrightarrow> (int i - 1) * ?p < int (length text))"
    have "s + ?p \<le> next_start text chunk_size chunk_overlap s"
      using next_start_bounds(3)[OF assms s(1), of "text"] by (simp add: min_advance_def)
    moreover have "int (Suc i) * ?p = int i * ?p + ?p"
      by (simp add: algebra_simps)
    ultimately show "int (Suc i) * ?p \<le> next_start text chunk_size chunk_overlap s \<and>
        (0 < Suc i \<longrightarrow> (int (Suc i) - 1) * ?p < int (length text))"
      using s I by simp
  qed (use assms in auto)
  then show ?thesis by blast
qed

lemma chunk_loop_covers:
  assumes "1 \<le> chunk_size" "0 \<le> chunk_overlap"
  shows "\<exists>c i. chunk_loop text chunk_size chunk_overlap 0 [] 0 = Some (c, i) \<and>
           (\<forall>j<length text. \<not> is_space (text ! j) \<longrightarrow> (\<exists>ch\<in>set c. covers text ch j))"
proof -
  let ?I = "\<lambda>s c (i::nat). \<forall>j<length text. int j < s \<longrightarrow> \<not> is_space (text ! j) \<longrightarrow>
                (\<exists>ch\<in>set c. covers text ch j)"
  have "\<exists>s' c i. chunk_loop text chunk_size chunk_overlap 0 [] 0 = Some (c, i) \<and>
           ?I s' c i \<and> int (length text) \<le> s'"
  proof (rule chunk_loop_rule[where I = ?I])
    fix s :: int and c :: "pystr list" and i :: nat
    assume s: "0 \<le> s" "s < int (length text)" and I: "?I s c i"
    let ?c = "if chunk_at text chunk_size s \<noteq> [] then c @ [chunk_at text chunk_size s] else c"
    show "?I (next_start text chunk_size chunk_overlap s) ?c (Suc i)"
    proof (intro allI impI)
      fix j
      assume j: "j < length text" "int j < next_start text chunk_size chunk_overlap s"
        "\<not> is_space (text ! j)"
      show "\<exists>ch\<in>set ?c. covers text ch j"
      proof (cases "int j < s")
        case True
        with I j obtain ch where "ch \<in> set c" "covers text ch j" by blast
        then show ?thesis by auto
      next
        case False
        have "int j < find_end text chunk_size s"
          using j(2) next_start_bounds(2)[OF assms s(1), of "text"] by simp
        then have cv: "covers text (chunk_at text chunk_size s) j"
          using False j s assms by (intro chunk_at_covers) auto
        then have "chunk_at text chunk_size s \<noteq> []" by (rule covers_length)
        with cv show ?thesis by auto
      qed
    qed
  qed (use assms in auto)
  then show ?thesis by force
qed

lemma chunk_loop_step:
  "start < int (length text) \<Longrightarrow>
   chunk_loop text chunk_size chunk_overlap start chunks iters =
     chunk_loop text chunk_size chunk_overlap
       (next_start text chunk_size chunk_overlap start)
       (if chunk_at text chunk_size start \<noteq> [] then chunks @ [chunk_at text chunk_size start]
        else chunks)
       (Suc iters)"
  by (subst chunk_loop.simps) simp

lemma chunk_loop_done:
  "\<not> start < int (length text) \<Longrightarrow>
   chunk_loop text chunk_size chunk_overlap start chunks iters = Some (chunks, iters)"
  by (subst chunk_loop.simps) simp

lemmas chunk_eval = chunk_loop_step chunk_loop_done chunk_run_def chunk_text_def chunk_iterations_def
  next_start_def chunk_at_def
  find_end_def separators_def rfind_def slice_def adjust_index_def strip_def is_space_def py_def Let_def upt_rec

lemma chunk_loop_app_empty:
  assumes "chunk_loop_app text chunk_size chunk_overlap start chunks = Some r"
  shows "chunks = [] \<longrightarrow> r = Inl TypeError \<or> r = Inr []"
  by (rule chunk_loop_app.raw_induct[where P = "\<lambda>text chunk_size chunk_overlap start chunks r.
        chunks = [] \<longrightarrow> r = Inl TypeError \<or> r = Inr []", OF _ assms])
     (auto split: if_splits)

lemma ceil_div_bound:
  assumes p: "1 \<le> p" and n: "n * p < a + p"
  shows "n \<le> ceil_div a p"
proof -
  have "(- a) div p * p = (- a) - (- a) mod p"
    by (simp only: minus_mod_eq_div_mult)
  then have "ceil_div a p * p = a + (- a) mod p"
    by (simp add: ceil_div_def)
  moreover have "0 \<le> (- a) mod p" using p by simp
  ultimately have "a \<le> ceil_div a p * p"
    by simp
  with n have "n * p < (ceil_div a p + 1) * p"
    by (simp add: algebra_simps)
  then have "n < ceil_div a p + 1"
    using p by (simp add: mult_less_cancel_right)
  then show ?thesis by simp
qed

lemma chunk_loop_app_step:
  "start < int (length text) \<Longrightarrow>
   chunk_loop_app text chunk_size chunk_overlap start chunks =
     (if (if chunk_at text chunk_size start \<noteq> [] then chunks @ [chunk_at text chunk_size start]
          else chunks) \<noteq> []
      then Some (Inl TypeError)
      else chunk_loop_app text chunk_size chunk_overlap
             (find_end text chunk_size start - chunk_overlap)
             (if chunk_at text chunk_size start \<noteq> [] then chunks @ [chunk_at text chunk_size start]
              else chunks))"
  by (subst chunk_loop_app.simps) simp

lemma strip_first: 
  assumes "strip w \<noteq> []"
  shows "\<not> is_space (strip w ! 0)"
proof -
  let ?r = "dropWhile is_space w"
  from strip_decomp[of ?r] obtain pre suf where
    r: "?r = pre @ strip ?r @ suf" and pre: "\<forall>c\<in>set pre. is_space c"
    by blast
  have ss: "strip ?r = strip w"
    by (auto simp: strip_def dest: set_dropWhileD)
  have rne: "?r \<noteq> []"
  proof
    assume e: "?r = []"
    have "strip w = []" by (simp only: strip_def e rev.simps dropWhile.simps)
    with assms show False by simp
  qed
  then have h: "\<not> is_space (hd ?r)" by (rule hd_dropWhile)
  have "pre = []"
  proof (rule ccontr)
    assume "pre \<noteq> []"
    then have "hd ?r = hd pre" by (subst r) simp
    with pre \<open>pre \<noteq> []\<close> h show False by (metis hd_in_set)
  qed
  with r ss have "?r = strip w @ suf" by simp
  then have "hd ?r = hd (strip w)" using assms by (metis hd_append2)
  with h assms show ?thesis by (simp add: hd_conv_nth)
qed

lemma chunk_at_first:
  assumes "1 \<le> chunk_size" "strip t \<noteq> []"
  shows "chunk_at (strip t) chunk_size 0 \<noteq> []"
proof -
  have "0 < find_end (strip t) chunk_size 0"
    using find_end_bounds(1)[OF assms(1), of 0 "strip t"] assms(1) by simp
  then have "covers (strip t) (chunk_at (strip t) chunk_size 0) 0"
    using assms strip_first[OF assms(2)] by (intro chunk_at_covers) auto
  then show ?thesis by (rule covers_length)
qed

section \<open>Properties of \<open>chunk_text\<close>\<close>

text \<open>
  A text of one space is non-empty and no longer than \<open>max_size\<close>, yet the result is
  the empty sequence, not the sequence holding the (empty) trimmed text.
\<close>

theorem chunk_text_single_counterexample:
  "py '' '' \<noteq> [] \<and> int (length (py '' '')) \<le> 5 \<and> chunk_text (py '' '') 5 0 = Some [] \<and>
   chunk_text (py '' '') 5 0 \<noteq> Some [strip (py '' '')]"
  by (simp add: chunk_eval)

text \<open>
  Claim C9, amended: for every text \<open>t\<close> that is not whitespace only and has
  \<open>len(t) \<le> max_size\<close>, \<open>chunk_text(t, max_size, overlap)\<close> returns exactly the
  one-element sequence \<open>[trim(t)]\<close>. (Whitespace-only text, which is non-empty, yields
  the empty sequence.)
\<close>

theorem chunk_text_single:
  "(strip t \<noteq> [] \<longrightarrow> int (length t) \<le> max_size \<longrightarrow>
      chunk_text t max_size overlap = Some [strip t]) \<and>
   (strip t = [] \<longrightarrow> chunk_text t max_size overlap = Some [])"
proof (intro conjI impI)
  assume ne: "strip t \<noteq> []" and le: "int (length t) \<le> max_size"
  have "length (strip t) \<le> length t" by (rule length_strip_le)
  with le have "int (length (strip t)) \<le> max_size" by simp
  with ne show "chunk_text t max_size overlap = Some [strip t]"
    by (simp add: chunk_text_def chunk_run_unfold)
next
  assume "strip t = []"
  then show "chunk_text t max_size overlap = Some []"
    by (simp add: chunk_text_def chunk_run_unfold)
qed

theorem chunk_text_single_witness:
  "strip (py '' ab '') \<noteq> [] \<and> int (length (py '' ab '')) \<le> 5 \<and>
   chunk_text (py '' ab '') 5 1 = Some [py ''ab'']"
  using chunk_text_single[of "py '' ab ''" 5 1] by (simp add: strip_def is_space_def py_def)

text \<open>
  Claim C10: for every input text and every \<open>max_size\<close> and \<open>overlap\<close> with
  \<open>0 \<le> overlap < max_size\<close>, \<open>chunk_text\<close> returns, and every string in the sequence
  it returns has length at most \<open>max_size\<close>. The second conjunct is the same bound for
  the older copy of the chunker, whenever that one returns a sequence.
\<close>

theorem chunk_text_max_size:
  assumes "0 \<le> overlap" "overlap < max_size"
  shows "(\<exists>chunks. chunk_text t max_size overlap = Some chunks \<and>
            (\<forall>c\<in>set chunks. int (length c) \<le> max_size)) \<and>
         (\<forall>chunks. chunk_text_app t max_size overlap = Some (Inr chunks) \<longrightarrow>
            (\<forall>c\<in>set chunks. int (length c) \<le> max_size))"
proof
  have cs: "1 \<le> max_size" using assms by simp
  show "\<exists>chunks. chunk_text t max_size overlap = Some chunks \<and>
            (\<forall>c\<in>set chunks. int (length c) \<le> max_size)"
    using chunk_loop_sizes[OF cs assms(1), of "strip t"]
    by (auto simp: chunk_text_def chunk_run_unfold)
  show "\<forall>chunks. chunk_text_app t max_size overlap = Some (Inr chunks) \<longrightarrow>
            (\<forall>c\<in>set chunks. int (length c) \<le> max_size)"
    using chunk_loop_app_empty[of "strip t" max_size overlap 0 "[]"]
    by (auto simp: chunk_text_app_def Let_def split: if_splits)
qed

theorem chunk_text_max_size_witness:
  "(0::int) \<le> 1 \<and> (1::int) < 4 \<and>
   chunk_text (py ''aaaa bbbb'') 4 1 = Some [py ''aaaa'', py ''a bb'', py ''bbb''] \<and>
   (\<exists>chunks. chunk_text (py ''aaaa bbbb'') 4 1 = Some chunks \<and>
      list_all (\<lambda>c. int (length c) \<le> 4) chunks)"
proof -
  have v: "chunk_text (py ''aaaa bbbb'') 4 1 = Some [py ''aaaa'', py ''a bb'', py ''bbb'']"
    by (simp add: chunk_eval)
  from chunk_text_max_size[of 1 4 "py ''aaaa bbbb''"] v show ?thesis
    by (simp add: list_all_iff)
qed

text \<open>
  The boundary search shortens the window, so an iteration can advance by less than
  \<open>max_size - overlap\<close>: the text \<^verbatim>\<open>"a a a a a a a a"\<close> (15 characters) with
  \<open>max_size = 3\<close> and \<open>overlap = 0\<close> takes 7 iterations, one more than the bound
  \<open>ceil(15 / 3) + 1 = 6\<close>.
\<close>

theorem chunk_text_iterations_counterexample:
  "(0::int) \<le> 0 \<and> (0::int) < 3 \<and>
   chunk_iterations (py ''a a a a a a a a'') 3 0 = Some 7 \<and>
   spec_iteration_bound (py ''a a a a a a a a'') 3 0 = 6 \<and>
   \<not> int 7 \<le> spec_iteration_bound (py ''a a a a a a a a'') 3 0"
  by (simp add: chunk_eval spec_iteration_bound_def ceil_div_def)

text \<open>
  Claim C6, amended: for every text \<open>t\<close> and every \<open>max_size\<close> and \<open>overlap\<close> with
  \<open>0 \<le> overlap < max_size\<close>, \<open>chunk_text(t, max_size, overlap)\<close> terminates, and its
  loop executes at most \<open>ceil(len(trim(t)) / max(1, max_size div 2 + 1 - overlap))\<close>
  iterations, which is at most \<open>len(t)\<close>.
\<close>

theorem chunk_text_iterations:
  assumes "0 \<le> overlap" "overlap < max_size"
  shows "\<exists>chunks n. chunk_text t max_size overlap = Some chunks \<and>
           chunk_iterations t max_size overlap = Some n \<and>
           int n \<le> ceil_div (int (length (strip t))) (min_advance max_size overlap) \<and>
           n \<le> length t"
proof -
  have cs: "1 \<le> max_size" using assms by simp
  let ?p = "min_advance max_size overlap"
  have p: "1 \<le> ?p" by (simp add: min_advance_def)
  have z: "(0::int) \<le> ceil_div (int (length (strip t))) ?p"
    using ceil_div_bound[OF p, of 0 "int (length (strip t))"] p by simp
  show ?thesis
  proof (cases "strip t = [] \<or> int (length (strip t)) \<le> max_size")
    case True
    then show ?thesis using z
      by (auto simp: chunk_text_def chunk_iterations_def chunk_run_unfold)
  next
    case False
    from chunk_loop_iters[OF cs assms(1), of "strip t"] obtain c i where
      run: "chunk_loop (strip t) max_size overlap 0 [] 0 = Some (c, i)" and
      b: "0 < i \<longrightarrow> (int i - 1) * ?p < int (length (strip t))"
      by blast
    have 1: "int i \<le> ceil_div (int (length (strip t))) ?p"
    proof (cases "0 < i")
      case True
      with b have "int i * ?p < int (length (strip t)) + ?p"
        by (simp add: algebra_simps)
      then show ?thesis by (rule ceil_div_bound[OF p])
    next
      case False
      then show ?thesis using z by simp
    qed
    have 2: "i \<le> length t"
    proof (cases "0 < i")
      case True
      have "(int i - 1) * 1 \<le> (int i - 1) * ?p"
        using p True by (intro mult_left_mono) auto
      with b True have "int i - 1 < int (length (strip t))" by simp
      moreover have "length (strip t) \<le> length t" by (rule length_strip_le)
      ultimately show ?thesis by simp
    next
      case False
      then show ?thesis by simp
    qed
    from False run 1 2 show ?thesis
      by (simp add: chunk_text_def chunk_iterations_def chunk_run_unfold)
  qed
qed

theorem chunk_text_iterations_witness:
  "(0::int) \<le> 0 \<and> (0::int) < 3 \<and>
   chunk_iterations (py ''a a a a a a a a'') 3 0 = Some 7 \<and>
   ceil_div (int (length (strip (py ''a a a a a a a a'')))) (min_advance 3 0) = 8 \<and>
   (\<exists>chunks n. chunk_text (py ''a a a a a a a a'') 3 0 = Some chunks \<and>
      chunk_iterations (py ''a a a a a a a a'') 3 0 = Some n \<and>
      int n \<le> ceil_div (int (length (strip (py ''a a a a a a a a'')))) (min_advance 3 0) \<and>
      n \<le> length (py ''a a a a a a a a''))"
proof -
  have v: "chunk_iterations (py ''a a a a a a a a'') 3 0 = Some 7"
    by (simp add: chunk_eval)
  have b: "ceil_div (int (length (strip (py ''a a a a a a a a'')))) (min_advance 3 0) = 8"
    by (simp add: ceil_div_def min_advance_def strip_def is_space_def py_def)
  from chunk_text_iterations[of 0 3 "py ''a a a a a a a a''"] v b show ?thesis
    by simp
qed

text \<open>
  Whitespace next to a cut is trimmed away: in \<^verbatim>\<open>"aaaa bbbb"\<close> with \<open>max_size = 5\<close>
  and \<open>overlap = 0\<close> the space at position 4 is in neither chunk.
\<close>

theorem chunk_text_coverage_counterexample:
  "(0::int) \<le> 0 \<and> (0::int) < 5 \<and>
   chunk_text (py ''aaaa bbbb'') 5 0 = Some [py ''aaaa'', py ''bbbb''] \<and>
   strip (py ''aaaa bbbb'') ! 4 = 32 \<and> 32 \<notin> set (py ''aaaa'') \<and> 32 \<notin> set (py ''bbbb'')"
  by (simp add: chunk_eval)

text \<open>
  Claim C7, amended: for every input text and every \<open>max_size\<close> and \<open>overlap\<close> with
  \<open>0 \<le> overlap < max_size\<close>, \<open>chunk_text\<close> returns, and every non-whitespace
  character of the trimmed input appears in at least one returned chunk: each position
  of the trimmed input that holds a non-whitespace character lies inside a chunk, which
  is a contiguous piece of the trimmed input.
\<close>

theorem chunk_text_coverage:
  assumes "0 \<le> overlap" "overlap < max_size"
  shows "\<exists>chunks. chunk_text t max_size overlap = Some chunks \<and>
           (\<forall>j<length (strip t). \<not> is_space (strip t ! j) \<longrightarrow>
              (\<exists>ch\<in>set chunks. covers (strip t) ch j))"
proof -
  have cs: "1 \<le> max_size" using assms by simp
  show ?thesis
  proof (cases "strip t = [] \<or> int (length (strip t)) \<le> max_size")
    case True
    have "covers (strip t) (strip t) j" if "j < length (strip t)" for j
      unfolding covers_def using that by (intro bexI[of _ 0]) auto
    with True show ?thesis
      by (auto simp: chunk_text_def chunk_run_unfold)
  next
    case False
    with chunk_loop_covers[OF cs assms(1), of "strip t"] show ?thesis
      by (auto simp: chunk_text_def chunk_run_unfold)
  qed
qed

theorem chunk_text_coverage_witness:
  "(0::int) \<le> 0 \<and> (0::int) < 5 \<and> \<not> is_space (strip (py ''aaaa bbbb'') ! 5) \<and>
   (\<exists>ch\<in>set (the (chunk_text (py ''aaaa bbbb'') 5 0)). covers (strip (py ''aaaa bbbb'')) ch 5)"
proof -
  have s: "strip (py ''aaaa bbbb'') = py ''aaaa bbbb''"
    by (simp add: strip_def is_space_def py_def)
  have n: "\<not> is_space (strip (py ''aaaa bbbb'') ! 5)"
    unfolding s by (simp add: is_space_def py_def)
  have l: "5 < length (strip (py ''aaaa bbbb''))"
    unfolding s by (simp add: py_def)
  from chunk_text_coverage[of 0 5 "py ''aaaa bbbb''"] n l show ?thesis
    by fastforce
qed

section \<open>The older copy of \<open>chunk_text\<close> raises\<close>

text \<open>
  Claim C8 says that \<open>chunk_text\<close> never raises for a string input. The copy under
  app/ raises \<^verbatim>\<open>TypeError\<close> on every text whose trimmed length exceeds
  \<open>chunk_size\<close> (for \<open>chunk_size \<ge> 1\<close>): the first chunk is never empty, and the
  progress check then compares an integer with a string. The backend copy returns a
  sequence on the same input.
\<close>

theorem chunk_text_app_type_error:
  assumes "1 \<le> chunk_size" "chunk_size < int (length (strip t))"
  shows "chunk_text_app t chunk_size chunk_overlap = Some (Inl TypeError)"
proof -
  have ne: "strip t \<noteq> []" "t \<noteq> []" using assms by auto
  have "chunk_loop_app (strip t) chunk_size chunk_overlap 0 [] = Some (Inl TypeError)"
    using assms chunk_at_first[OF assms(1) ne(1)] by (subst chunk_loop_app_step) auto
  with ne assms show ?thesis by (simp add: chunk_text_app_def)
qed

theorem chunk_text_app_type_error_witness:
  "(1::int) \<le> 4 \<and> 4 < int (length (strip (py ''aaaa bbbb''))) \<and>
   chunk_text_app (py ''aaaa bbbb'') 4 1 = Some (Inl TypeError) \<and>
   chunk_text (py ''aaaa bbbb'') 4 1 = Some [py ''aaaa'', py ''a bb'', py ''bbb'']"
proof -
  have l: "4 < int (length (strip (py ''aaaa bbbb'')))"
    by (simp add: strip_def is_space_def py_def)
  have b: "chunk_text (py ''aaaa bbbb'') 4 1 = Some [py ''aaaa'', py ''a bb'', py ''bbb'']"
    by (simp add: chunk_eval)
  from chunk_text_app_type_error[of 4 "py ''aaaa bbbb''" 1] l b show ?thesis by simp
qed

section \<open>The vector store: dictionaries and the loops of the store\<close>

lemma keys_update: "keys (DAList.update k v d) = insert k (keys d)"
  by (auto simp: keys_def DAList.lookup_update split: if_splits)

lemma keys_delete: "keys (DAList.delete k d) = keys d - {k}"
  by (auto simp: keys_def)

lemma keys_empty: "keys DAList.empty = {}"
  by (simp add: keys_def dom_def)


lemma lookup_impl_of:
  "DAList.lookup d k = Some v \<longleftrightarrow> (k, v) \<in> set (DAList.impl_of d)"
  by (simp add: DAList.lookup.rep_eq)

lemma impl_of_Nil_iff: "DAList.impl_of d = [] \<longleftrightarrow> d = DAList.empty"
  by (simp add: DAList.alist_eq_iff DAList.empty.rep_eq)

lemma add_entries_key_inv:
  assumes "key_inv s"
    and "i + length ids \<le> length docs" "i + length ids \<le> length embs" "i + length ids \<le> length metas"
  shows "\<exists>s'. add_entries s i ids docs embs metas = (None, s') \<and> key_inv s' \<and>
           persist_path s' = persist_path s"
  using assms
proof (induction ids arbitrary: s i)
  case Nil
  then show ?case by simp
next
  case (Cons cid ids)
  let ?s = "s\<lparr>documents := DAList.update cid (docs ! i) (documents s),
                embeddings := DAList.update cid (embs ! i) (embeddings s),
                metadatas := DAList.update cid (metas ! i) (metadatas s)\<rparr>"
  have "key_inv ?s" using Cons.prems(1) by (simp add: key_inv_def keys_update)
  moreover have "Suc i + length ids \<le> length docs" "Suc i + length ids \<le> length embs"
    "Suc i + length ids \<le> length metas"
    using Cons.prems by auto
  ultimately have "\<exists>s'. add_entries ?s (Suc i) ids docs embs metas = (None, s') \<and> key_inv s' \<and>
      persist_path s' = persist_path ?s"
    by (rule Cons.IH)
  moreover have "i < length docs" "i < length embs" "i < length metas" using Cons.prems by auto
  ultimately show ?case by simp
qed

lemma delete_ids_effect:
  assumes "key_inv s" "distinct xs" "set xs \<subseteq> keys (metadatas s)"
  shows "\<exists>s'. delete_ids s xs = (None, s') \<and> key_inv s' \<and>
           persist_path s' = persist_path s \<and>
           DAList.lookup (documents s') = DAList.lookup (documents s) |` (- set xs) \<and>
           DAList.lookup (embeddings s') = DAList.lookup (embeddings s) |` (- set xs) \<and>
           DAList.lookup (metadatas s') = DAList.lookup (metadatas s) |` (- set xs)"
  using assms
proof (induction xs arbitrary: s)
  case Nil
  then show ?case by simp
next
  case (Cons cid rest)
  let ?s = "s\<lparr>documents := DAList.delete cid (documents s),
                embeddings := DAList.delete cid (embeddings s),
                metadatas := DAList.delete cid (metadatas s)\<rparr>"
  have in_keys: "cid \<in> keys (documents s)" "cid \<in> keys (embeddings s)" "cid \<in> keys (metadatas s)"
    using Cons.prems by (auto simp: key_inv_def)
  have "key_inv ?s" using Cons.prems(1) by (simp add: key_inv_def keys_delete)
  moreover have "distinct rest" using Cons.prems(2) by simp
  moreover have "set rest \<subseteq> keys (metadatas ?s)"
    using Cons.prems(2,3) by (auto simp: keys_delete)
  ultimately obtain s' where s': "delete_ids ?s rest = (None, s')" "key_inv s'"
      "persist_path s' = persist_path ?s"
      "DAList.lookup (documents s') = DAList.lookup (documents ?s) |` (- set rest)"
      "DAList.lookup (embeddings s') = DAList.lookup (embeddings ?s) |` (- set rest)"
      "DAList.lookup (metadatas s') = DAList.lookup (metadatas ?s) |` (- set rest)"
    using Cons.IH[of ?s] by blast
  have "delete_ids s (cid # rest) = (None, s')" using in_keys s'(1) by simp
  moreover have "DAList.lookup (documents s') = DAList.lookup (documents s) |` (- set (cid # rest))"
    using s'(4) by (auto simp: restrict_map_def fun_eq_iff)
  moreover have "DAList.lookup (embeddings s') = DAList.lookup (embeddings s) |` (- set (cid # rest))"
    using s'(5) by (auto simp: restrict_map_def fun_eq_iff)
  moreover have "DAList.lookup (metadatas s') = DAList.lookup (metadatas s) |` (- set (cid # rest))"
    using s'(6) by (auto simp: restrict_map_def fun_eq_iff)
  ultimately show ?case using s'(2,3) by simp
qed

lemma set_to_delete: "set (to_delete s flt) = matching s flt"
  by (auto simp: to_delete_def matching_def lookup_impl_of image_iff)

lemma distinct_to_delete: "distinct (to_delete s flt)"
  unfolding to_delete_def by (rule distinct_map_fst_filter) simp

lemma matching_keys: "matching s flt \<subseteq> keys (metadatas s)"
  by (auto simp: matching_def keys_def)

text \<open>What \<open>save\<close> does to the outcome of a call.\<close>

lemma save_cases:
  "(dir_available s env \<and> (\<exists>env'. save pdump s env = Inr env' \<and> dir_ok env' = dir_ok env)) \<or>
   (\<not> dir_available s env \<and> save pdump s env = Inl OSError)"
  by (auto simp: save_def dir_available_def)

lemma add_effect:
  assumes "key_inv s"
    and "length docs = length ids" "length embs = length ids" "length metas = length ids"
  shows "\<exists>s' env'. add pdump (s, env) ids docs embs metas =
             (if dir_available s env then None else Some OSError, s', env') \<and>
           key_inv s' \<and> persist_path s' = persist_path s \<and> dir_ok env' = dir_ok env"
proof -
  from add_entries_key_inv[OF assms(1), of 0 ids docs embs metas] assms(2-4)
  obtain s' where s': "add_entries s 0 ids docs embs metas = (None, s')" "key_inv s'"
      "persist_path s' = persist_path s"
    by auto
  have d: "dir_available s' env = dir_available s env"
    using s'(3) by (simp add: dir_available_def)
  from save_cases[of s' env pdump] s' d show ?thesis
    by (auto simp: add_def)
qed

lemma delete_effect:
  assumes "key_inv s"
  shows "\<exists>s' env'. delete pdump (s, env) flt =
             (if dir_available s env then Inr (card (matching s flt)) else Inl OSError, s', env') \<and>
           key_inv s' \<and> persist_path s' = persist_path s \<and> dir_ok env' = dir_ok env \<and>
           DAList.lookup (documents s') = DAList.lookup (documents s) |` (- matching s flt) \<and>
           DAList.lookup (embeddings s') = DAList.lookup (embeddings s) |` (- matching s flt) \<and>
           DAList.lookup (metadatas s') = DAList.lookup (metadatas s) |` (- matching s flt)"
proof -
  have "set (to_delete s flt) \<subseteq> keys (metadatas s)"
    using matching_keys[of s flt] by (simp add: set_to_delete)
  from delete_ids_effect[OF assms distinct_to_delete this]
  obtain s' where s': "delete_ids s (to_delete s flt) = (None, s')" "key_inv s'"
      "persist_path s' = persist_path s"
      "DAList.lookup (documents s') = DAList.lookup (documents s) |` (- set (to_delete s flt))"
      "DAList.lookup (embeddings s') = DAList.lookup (embeddings s) |` (- set (to_delete s flt))"
      "DAList.lookup (metadatas s') = DAList.lookup (metadatas s) |` (- set (to_delete s flt))"
    by blast
  have l: "length (to_delete s flt) = card (matching s flt)"
    using distinct_card[OF distinct_to_delete, of s flt] by (simp add: set_to_delete)
  have d: "dir_available s' env = dir_available s env"
    using s'(3) by (simp add: dir_available_def)
  from save_cases[of s' env pdump] s' d l show ?thesis
    by (auto simp: delete_def set_to_delete)
qed

lemma apply_op_effect:
  assumes "key_inv s" "equal_lengths op"
  shows "\<exists>s' env'. apply_op pdump (s, env) op =
             (if dir_available s env then None else Some OSError, s', env') \<and>
           key_inv s' \<and> persist_path s' = persist_path s \<and> dir_ok env' = dir_ok env"
proof (cases op)
  case (Add ids docs embs metas)
  with assms(2) add_effect[OF assms(1), of docs ids embs metas pdump env] show ?thesis
    by auto
next
  case (Delete flt)
  from delete_effect[OF assms(1), of pdump env flt]
  obtain s' env' where "delete pdump (s, env) flt =
      (if dir_available s env then Inr (card (matching s flt)) else Inl OSError, s', env')"
    "key_inv s'" "persist_path s' = persist_path s" "dir_ok env' = dir_ok env"
    by blast
  with Delete show ?thesis by auto
qed

lemma run_ops_effect:
  assumes "key_inv s" "\<forall>op\<in>set ops. equal_lengths op"
  shows "\<exists>s' env'. run_ops pdump (s, env) ops =
             (replicate (length ops) (if dir_available s env then None else Some OSError), s', env') \<and>
           key_inv s'"
  using assms
proof (induction ops arbitrary: s env)
  case Nil
  then show ?case by simp
next
  case (Cons op ops)
  from apply_op_effect[of s op pdump env] Cons.prems
  obtain s1 env1 where 1: "apply_op pdump (s, env) op =
       (if dir_available s env then None else Some OSError, s1, env1)"
     "key_inv s1" "persist_path s1 = persist_path s" "dir_ok env1 = dir_ok env"
    by auto
  have d: "dir_available s1 env1 = dir_available s env"
    using 1(3,4) by (simp add: dir_available_def)
  from Cons.IH[OF 1(2), of env1] Cons.prems(2)
  obtain s' env' where "run_ops pdump (s1, env1) ops =
       (replicate (length ops) (if dir_available s1 env1 then None else Some OSError), s', env')"
     "key_inv s'"
    by auto
  with 1 d show ?case by simp
qed

lemmas dict_eval = DAList.update.rep_eq DAList.empty.rep_eq DAList.lookup.rep_eq DAList.delete.rep_eq
  AList.delete_eq py_def

lemma key_inv_empty_store: "key_inv empty_store"
  by (simp add: key_inv_def empty_store_def keys_empty)


lemma dir_available_example: "dir_available example_store example_fs"
  by (simp add: dir_available_def example_store_def example_fs_def py_def)

lemma dir_available_empty: "dir_available empty_store example_fs"
  by (simp add: dir_available_def empty_store_def example_fs_def py_def)

text \<open>The filter test of each copy, as a condition on the fields.\<close>

lemma matches_items_iff:
  "matches_items metadata items \<longleftrightarrow>
     list_all (\<lambda>(key, expected).
        (case DAList.lookup metadata key of
           None \<Rightarrow> False
         | Some (PList xs) \<Rightarrow> expected \<in> set xs
         | Some meta_value \<Rightarrow> meta_value = expected)) items"
proof (induction items)
  case Nil
  then show ?case by simp
next
  case (Cons item items)
  obtain key expected where item: "item = (key, expected)" by (cases item)
  show ?case
  proof (cases "DAList.lookup metadata key")
    case None
    then show ?thesis by (simp add: item)
  next
    case (Some meta_value)
    with Cons.IH show ?thesis by (cases meta_value) (simp_all add: item)
  qed
qed

lemma matches_app_iff: "matches_app metadata flt \<longleftrightarrow> filter_holds_app metadata flt"
proof -
  have "(dict_get metadata k PNone = v) =
        (case DAList.lookup metadata k of None \<Rightarrow> v = PNone | Some mv \<Rightarrow> mv = v)" for k v
    by (auto simp: dict_get_def split: option.splits)
  then show ?thesis by (simp add: matches_app_def filter_holds_app_def)
qed

lemma set_hits:
  "cid \<in> set (map fst (filter (\<lambda>(cid, metadata). P metadata) (DAList.impl_of d))) \<longleftrightarrow>
     (\<exists>m. DAList.lookup d cid = Some m \<and> P m)"
  by (auto simp: lookup_impl_of image_iff)





















section \<open>Properties of the vector store\<close>

text \<open>
  Claim C1: for every store state satisfying the key-set invariant and every sequence
  of \<open>add\<close> and \<open>delete\<close> operations in which each \<open>add\<close> is called with four lists of
  equal length, the three mappings of the store have exactly the same key set after each
  operation (that is, after every prefix of the sequence), whether or not the
  persistence step of an operation raises. The only exception such an operation can
  raise is the \<^verbatim>\<open>OSError\<close> of \<^verbatim>\<open>os.makedirs\<close> in \<^verbatim>\<open>_save\<close>, and no operation raises
  when the snapshot directory can be created.
\<close>

theorem key_sets_equal_after_each_operation:
  assumes "key_inv s" "\<forall>op\<in>set ops. equal_lengths op"
  shows "\<forall>n\<le>length ops. \<exists>es s' env'.
           run_ops pdump (s, env) (take n ops) = (es, s', env') \<and>
           keys (documents s') = keys (embeddings s') \<and> keys (embeddings s') = keys (metadatas s') \<and>
           set es \<subseteq> {None, Some OSError} \<and>
           (dir_available s env \<longrightarrow> set es \<subseteq> {None})"
proof (intro allI impI)
  fix n
  assume "n \<le> length ops"
  have "\<forall>op\<in>set (take n ops). equal_lengths op"
    using assms(2) by (auto dest: in_set_takeD)
  from run_ops_effect[OF assms(1) this, of pdump env]
  obtain s' env' where r: "run_ops pdump (s, env) (take n ops) =
       (replicate (length (take n ops)) (if dir_available s env then None else Some OSError), s', env')"
     "key_inv s'"
    by blast
  let ?es = "replicate (length (take n ops)) (if dir_available s env then None else Some OSError)"
  have "set ?es \<subseteq> {None, Some OSError}" "dir_available s env \<longrightarrow> set ?es \<subseteq> {None}"
    by auto
  with r show "\<exists>es s' env'.
           run_ops pdump (s, env) (take n ops) = (es, s', env') \<and>
           keys (documents s') = keys (embeddings s') \<and> keys (embeddings s') = keys (metadatas s') \<and>
           set es \<subseteq> {None, Some OSError} \<and>
           (dir_available s env \<longrightarrow> set es \<subseteq> {None})"
    unfolding key_inv_def by blast
qed

theorem key_sets_equal_after_each_operation_witness:
  "key_inv empty_store \<and> list_all equal_lengths example_ops \<and> dir_available empty_store example_fs \<and>
   (\<exists>es s' env'. run_ops Inr (empty_store, example_fs) (take 2 example_ops) = (es, s', env') \<and>
      keys (documents s') = keys (embeddings s') \<and> keys (embeddings s') = keys (metadatas s') \<and>
      set es \<subseteq> {None})"
proof -
  have l: "\<forall>op\<in>set example_ops. equal_lengths op"
    by (simp add: example_ops_def)
  have n: "2 \<le> length example_ops"
    by (simp add: example_ops_def)
  from key_sets_equal_after_each_operation[OF key_inv_empty_store l, of Inr example_fs] n
    dir_available_empty
  have "\<exists>es s' env'. run_ops Inr (empty_store, example_fs) (take 2 example_ops) = (es, s', env') \<and>
      keys (documents s') = keys (embeddings s') \<and> keys (embeddings s') = keys (metadatas s') \<and>
      set es \<subseteq> {None}"
    by blast
  with key_inv_empty_store l dir_available_empty show ?thesis by (simp add: list_all_iff)
qed




text \<open>
  A filter whose expected value is itself a list equal to the record's field meets the
  claim's second alternative (the field equals the expected value exactly), but
  \<^verbatim>\<open>_matches_filter\<close> only tests membership for a list field, so the record is not
  selected. The older copy of the store compares with \<^verbatim>\<open>metadata.get(k) == v\<close> only:
  there a list field that contains the expected value does not match, and a missing
  field matches the expected value \<^verbatim>\<open>None\<close>. In both copies \<open>query\<close> selects nothing
  while the embeddings dictionary is empty, whatever the metadata dictionary holds.
\<close>

theorem filter_selection_counterexample:
  "spec_matches (example_metadata ''X'' [''ISO 10993''])
     (DAList.update (py ''standards_referenced'') (PList [PStr (py ''ISO 10993'')]) DAList.empty) \<and>
   \<not> matches_filter (example_metadata ''X'' [''ISO 10993''])
     (DAList.update (py ''standards_referenced'') (PList [PStr (py ''ISO 10993'')]) DAList.empty) \<and>
   res_ids (get example_store
     (Some (DAList.update (py ''standards_referenced'')
        (PList [PStr (py ''ISO 10993''), PStr (py ''IEC 62304'')]) DAList.empty)) None) = [] \<and>
   spec_matches (example_metadata ''X'' [''ISO 10993'', ''IEC 62304''])
     (DAList.update (py ''standards_referenced'') (PStr (py ''ISO 10993'')) DAList.empty) \<and>
   \<not> matches_app (example_metadata ''X'' [''ISO 10993'', ''IEC 62304''])
     (DAList.update (py ''standards_referenced'') (PStr (py ''ISO 10993'')) DAList.empty) \<and>
   res_ids (get_app example_store
     (Some (DAList.update (py ''standards_referenced'') (PStr (py ''ISO 10993'')) DAList.empty))
     None) = [] \<and>
   \<not> spec_matches (example_metadata ''X'' [])
     (DAList.update (py ''device_name'') PNone DAList.empty) \<and>
   matches_app (example_metadata ''X'' [])
     (DAList.update (py ''device_name'') PNone DAList.empty) \<and>
   DAList.lookup (metadatas no_embeddings_store) (py ''X_chunk_0'') = Some (example_metadata ''X'' []) \<and>
   spec_matches (example_metadata ''X'' []) DAList.empty \<and>
   query_candidates no_embeddings_store (Some DAList.empty) = [] \<and>
   query_candidates_app no_embeddings_store (Some DAList.empty) = []"
  by (simp add: spec_matches_def matches_filter_def matches_app_def dict_get_def get_def get_app_def
      selects_def selects_app_def query_candidates_def query_candidates_app_def
      example_metadata_def example_store_def no_embeddings_store_def dict_eval Let_def)

text \<open>
  Claim C3, amended: for every record and every filter, the filtered operations \<open>get\<close>,
  \<open>query\<close> and \<open>delete\<close> of the store select the record if and only if its metadata
  passes the filter test of the copy: in the backend copy, for every filter key, the
  metadata has that field and the field, when it is a list, contains the expected value
  and otherwise equals the expected value exactly; in the older copy, for every filter
  key, the field equals the expected value, a missing field counting as \<^verbatim>\<open>None\<close>. When
  no filter is given, every record is selected. For \<open>query\<close>, the selected records are
  the candidates it ranks, and it selects records only when the embeddings dictionary
  is not empty. This holds in every store state.
\<close>

theorem filter_selection:
  "selects None metadata \<and> selects_app None metadata \<and>
   (selects (Some flt) metadata \<longleftrightarrow> filter_holds metadata flt) \<and>
   (selects_app (Some flt) metadata \<longleftrightarrow> filter_holds_app metadata flt) \<and>
   (cid \<in> set (res_ids (get s f incl)) \<longleftrightarrow>
      (\<exists>m. DAList.lookup (metadatas s) cid = Some m \<and> selects f m)) \<and>
   (cid \<in> set (query_candidates s f) \<longleftrightarrow>
      embeddings s \<noteq> DAList.empty \<and> (\<exists>m. DAList.lookup (metadatas s) cid = Some m \<and> selects f m)) \<and>
   (cid \<in> set (to_delete s flt) \<longleftrightarrow>
      (\<exists>m. DAList.lookup (metadatas s) cid = Some m \<and> selects (Some flt) m)) \<and>
   (cid \<in> set (res_ids (get_app s f incl)) \<longleftrightarrow>
      (\<exists>m. DAList.lookup (metadatas s) cid = Some m \<and> selects_app f m)) \<and>
   (cid \<in> set (query_candidates_app s f) \<longleftrightarrow>
      embeddings s \<noteq> DAList.empty \<and>
      (\<exists>m. DAList.lookup (metadatas s) cid = Some m \<and> selects_app f m)) \<and>
   (cid \<in> set (to_delete_app s flt) \<longleftrightarrow>
      (\<exists>m. DAList.lookup (metadatas s) cid = Some m \<and> selects_app (Some flt) m))"
proof (intro conjI)
  show "selects None metadata" by (simp add: selects_def)
  show "selects_app None metadata" by (simp add: selects_app_def)
  show "selects (Some flt) metadata \<longleftrightarrow> filter_holds metadata flt"
    by (simp add: selects_def matches_filter_def filter_holds_def matches_items_iff)
  show "selects_app (Some flt) metadata \<longleftrightarrow> filter_holds_app metadata flt"
    by (simp add: selects_app_def matches_app_iff)
  show "cid \<in> set (res_ids (get s f incl)) \<longleftrightarrow>
      (\<exists>m. DAList.lookup (metadatas s) cid = Some m \<and> selects f m)"
  proof -
    have "res_ids (get s f incl) =
          map fst (filter (\<lambda>(cid, metadata). selects f metadata) (DAList.impl_of (metadatas s)))"
      by (simp add: get_def Let_def)
    then show ?thesis by (simp only: set_hits)
  qed
  show "cid \<in> set (res_ids (get_app s f incl)) \<longleftrightarrow>
      (\<exists>m. DAList.lookup (metadatas s) cid = Some m \<and> selects_app f m)"
  proof -
    have "res_ids (get_app s f incl) =
          map fst (filter (\<lambda>(cid, metadata). selects_app f metadata) (DAList.impl_of (metadatas s)))"
      by (simp add: get_app_def Let_def)
    then show ?thesis by (simp only: set_hits)
  qed
  show "cid \<in> set (query_candidates s f) \<longleftrightarrow>
      embeddings s \<noteq> DAList.empty \<and> (\<exists>m. DAList.lookup (metadatas s) cid = Some m \<and> selects f m)"
    unfolding query_candidates_def candidates_of_def
    by (cases "embeddings s = DAList.empty") (simp_all only: impl_of_Nil_iff set_hits if_True if_False
        list.set empty_iff simp_thms)
  show "cid \<in> set (query_candidates_app s f) \<longleftrightarrow>
      embeddings s \<noteq> DAList.empty \<and>
      (\<exists>m. DAList.lookup (metadatas s) cid = Some m \<and> selects_app f m)"
    unfolding query_candidates_app_def
    by (cases "embeddings s = DAList.empty") (simp_all only: impl_of_Nil_iff set_hits if_True if_False
        list.set empty_iff simp_thms)
  show "cid \<in> set (to_delete s flt) \<longleftrightarrow>
      (\<exists>m. DAList.lookup (metadatas s) cid = Some m \<and> selects (Some flt) m)"
    by (simp add: set_to_delete matching_def selects_def)
  show "cid \<in> set (to_delete_app s flt) \<longleftrightarrow>
      (\<exists>m. DAList.lookup (metadatas s) cid = Some m \<and> selects_app (Some flt) m)"
    unfolding to_delete_app_def selects_app_def by (simp only: set_hits option.case)
qed

theorem filter_selection_witness:
  "selects (Some (DAList.update (py ''standards_referenced'') (PStr (py ''ISO 10993'')) DAList.empty))
     (example_metadata ''X'' [''ISO 10993'', ''IEC 62304'']) \<and>
   \<not> selects (Some (DAList.update (py ''standards_referenced'') (PStr (py ''ISO 13485'')) DAList.empty))
     (example_metadata ''X'' [''ISO 10993'', ''IEC 62304'']) \<and>
   py ''X_chunk_0'' \<in> set (res_ids (get example_store
      (Some (DAList.update (py ''doc_id'') (PStr (py ''X'')) DAList.empty)) None)) \<and>
   py ''Y_chunk_0'' \<notin> set (res_ids (get example_store
      (Some (DAList.update (py ''doc_id'') (PStr (py ''X'')) DAList.empty)) None)) \<and>
   py ''X_chunk_0'' \<in> set (res_ids (get_app example_store
      (Some (DAList.update (py ''doc_id'') (PStr (py ''X'')) DAList.empty)) None))"
proof -
  let ?md = "example_metadata ''X'' [''ISO 10993'', ''IEC 62304'']"
  let ?f1 = "DAList.update (py ''standards_referenced'') (PStr (py ''ISO 10993'')) DAList.empty"
  let ?f2 = "DAList.update (py ''standards_referenced'') (PStr (py ''ISO 13485'')) DAList.empty"
  let ?fx = "DAList.update (py ''doc_id'') (PStr (py ''X'')) DAList.empty"
  have h1: "filter_holds ?md ?f1"
    by (simp add: filter_holds_def example_metadata_def dict_eval)
  have h2: "\<not> filter_holds ?md ?f2"
    by (simp add: filter_holds_def example_metadata_def dict_eval)
  have x: "\<exists>m. DAList.lookup (metadatas example_store) (py ''X_chunk_0'') = Some m \<and> selects (Some ?fx) m"
    by (simp add: example_store_def example_metadata_def selects_def matches_filter_def dict_eval)
  have xa: "\<exists>m. DAList.lookup (metadatas example_store) (py ''X_chunk_0'') = Some m \<and>
      selects_app (Some ?fx) m"
    by (simp add: example_store_def example_metadata_def selects_app_def matches_app_def dict_get_def
        dict_eval)
  have y: "\<not> (\<exists>m. DAList.lookup (metadatas example_store) (py ''Y_chunk_0'') = Some m \<and> selects (Some ?fx) m)"
    by (simp add: example_store_def example_metadata_def selects_def matches_filter_def dict_eval)
  from filter_selection[of ?md ?f1 "py ''X_chunk_0''" example_store "Some ?fx" None]
    filter_selection[of ?md ?f2 "py ''Y_chunk_0''" example_store "Some ?fx" None]
    h1 h2 x xa y
  show ?thesis by simp
qed

text \<open>
  Claim C4: saving a store state to its persistence path and then constructing a store
  from that path reproduces the state exactly, whenever the save writes (the snapshot
  directory can be created and the file opened) and \<open>pickle\<close> reads back the dictionary
  it has written.
\<close>

theorem load_save_roundtrip:
  assumes "dir_available s env" "open_ok env (data_file (persist_path s))"
    and "pdump (snapshot_of s) = Inr b" "pload b = Some (snapshot_of s)"
  shows "\<exists>env'. save pdump s env = Inr env' \<and> init_store pload (persist_path s) env' = s"
  using assms
  by (simp add: init_store_def load_def save_def snapshot_of_def dir_available_def)

theorem load_save_roundtrip_witness:
  "dir_available example_store example_fs \<and>
   open_ok example_fs (data_file (persist_path example_store)) \<and>
   (\<exists>env'. save Inr example_store example_fs = Inr env' \<and>
      init_store Some (persist_path example_store) env' = example_store)"
proof -
  have o: "open_ok example_fs (data_file (persist_path example_store))"
    by (simp add: example_fs_def)
  from load_save_roundtrip[OF dir_available_example o, of Inr "snapshot_of example_store" Some]
    dir_available_example o
  show ?thesis by simp
qed




end
